theory Spec2Isabelle
  imports Complex_Main
begin

section \<open>ElGamal signature arithmetic (elgamal.js)\<close>

text \<open>
  The program works on JavaScript numbers. The embedding takes them to be exact
  integers (\<^typ>\<open>int\<close>): the specification restricts the inputs to the range in which
  the host's arithmetic is exact, so no product below is rounded. Two consequences of
  that choice are written out where they matter:
  \<^item> \<open>%\<close> is JavaScript's remainder, whose sign follows the dividend (\<open>js_rem\<close>);
    it is not the mathematical \<open>mod\<close>. A zero divisor gives \<open>NaN\<close> in JavaScript, which
    has no counterpart here: every claim below is about a nonzero modulus.
  \<^item> \<open>Math.floor(a / b)\<close> is the floor of the exact quotient, which is \<open>div\<close> on
    \<^typ>\<open>int\<close> for a nonzero \<open>b\<close>.
\<close>

subsection \<open>The remainder operator\<close>

definition js_rem :: "int \<Rightarrow> int \<Rightarrow> int" where
  "js_rem a b = sgn a * (\<bar>a\<bar> mod \<bar>b\<bar>)"

subsection \<open>fastModularExponentiation\<close>

text \<open>
  The \<open>while (exponent > 0)\<close> loop, with the three variables it updates. The exponent
  is positive inside the loop, so \<open>Math.floor(exponent / 2)\<close> is \<open>exponent div 2\<close>.
\<close>

function fme_loop :: "int \<Rightarrow> int \<Rightarrow> int \<Rightarrow> int \<Rightarrow> int" where
  "fme_loop result x exponent modulus =
     (if exponent > 0 then
        (let leastSignificantBit = js_rem exponent 2;
             exponent' = exponent div 2;
             result' = (if leastSignificantBit = 1 then js_rem (result * x) modulus else result);
             x' = js_rem (x * x) modulus
         in fme_loop result' x' exponent' modulus)
      else result)"
  by pat_completeness auto
termination
  by (relation "measure (\<lambda>(result, x, exponent, modulus). nat exponent)") auto

declare fme_loop.simps [simp del]

definition fastModularExponentiation :: "int \<Rightarrow> int \<Rightarrow> int \<Rightarrow> int" where
  "fastModularExponentiation base exponent modulus =
     (let base' = js_rem base modulus in fme_loop 1 base' exponent modulus)"

subsection \<open>verify\<close>


subsection \<open>discreteLogarithm\<close>

text \<open>
  \<open>Math.floor(Math.sqrt(modulo) + 1)\<close>: the square root is a floating-point operation.
  The embedding uses the exact integer square root, computed by counting up
  (\<open>floor_sqrt\<close>); lemma \<open>floor_sqrt_real\<close> below relates it to the real square root.
  A negative \<open>modulo\<close>, for which the source's square root is \<open>NaN\<close>, is outside the
  embedding.
\<close>

function sqrt_loop :: "int \<Rightarrow> int \<Rightarrow> int" where
  "sqrt_loop k m = (if (k + 1) * (k + 1) \<le> m then sqrt_loop (k + 1) m else k)"
  by pat_completeness auto
termination
proof (relation "measure (\<lambda>(k, m). nat (m - k))")
  fix k m :: int
  assume a: "(k + 1) * (k + 1) \<le> m"
  have "0 \<le> (k + 1) * k"
    by (cases "0 \<le> k") (simp_all add: mult_nonpos_nonpos)
  then have "k + 1 \<le> (k + 1) * (k + 1)" by (simp add: algebra_simps)
  with a have "k + 1 \<le> m" by linarith
  then show "((k + 1, m), (k, m)) \<in> measure (\<lambda>(k, m). nat (m - k))" by simp
qed simp

declare sqrt_loop.simps [simp del]

definition floor_sqrt :: "int \<Rightarrow> int" where
  "floor_sqrt m = sqrt_loop 0 m"

text \<open>
  The lookup table \<open>value\<close> is a JavaScript array written at computed indices and read
  at computed indices. A slot that was never written reads as \<open>undefined\<close>, and
  \<open>undefined > 0\<close> is false; so the array is a partial map from index to stored value.
  The first loop runs from \<open>n\<close> down to \<open>1\<close>.
\<close>

function giant_loop :: "int \<Rightarrow> int \<Rightarrow> int \<Rightarrow> int \<Rightarrow> (int \<rightharpoonup> int) \<Rightarrow> (int \<rightharpoonup> int)" where
  "giant_loop i n alpha modulus table =
     (if i \<ge> 1 then
        giant_loop (i - 1) n alpha modulus
          (table(fastModularExponentiation alpha (i * n) modulus \<mapsto> i))
      else table)"
  by pat_completeness auto
termination
  by (relation "measure (\<lambda>(i, n, alpha, modulus, table). nat i)") auto

declare giant_loop.simps [simp del]

function baby_loop :: "int \<Rightarrow> int \<Rightarrow> int \<Rightarrow> int \<Rightarrow> int \<Rightarrow> (int \<rightharpoonup> int) \<Rightarrow> int" where
  "baby_loop i n alpha beta modulus table =
     (if i < n then
        (let curr = js_rem (fastModularExponentiation alpha i modulus * beta) modulus in
         case table curr of
           None \<Rightarrow> baby_loop (i + 1) n alpha beta modulus table
         | Some v \<Rightarrow>
             if v > 0 then
               (let ans = v * n - i in
                if ans < modulus then ans
                else baby_loop (i + 1) n alpha beta modulus table)
             else baby_loop (i + 1) n alpha beta modulus table)
      else - 1)"
  by pat_completeness auto
termination
  by (relation "measure (\<lambda>(i, n, alpha, beta, modulus, table). nat (n - i))") auto

declare baby_loop.simps [simp del]

definition discreteLogarithm :: "int \<Rightarrow> int \<Rightarrow> int \<Rightarrow> int" where
  "discreteLogarithm alpha beta modulus =
     (let n = floor_sqrt modulus + 1;
          table = giant_loop n n alpha modulus Map.empty
      in baby_loop 0 n alpha beta modulus table)"

subsection \<open>negativeModulo\<close>

text \<open>
  The loop \<open>for (; i < modulo; i--)\<close> leaves only through \<open>break\<close> when \<open>modulo\<close> is
  positive, and never leaves when \<open>modulo\<close> is \<open>0\<close>; \<open>None\<close> stands for a call that
  does not return.
\<close>

partial_function (option) negativeModulo_loop :: "int \<Rightarrow> int \<Rightarrow> int \<Rightarrow> int option" where
  "negativeModulo_loop i negativeNumber modulus =
     (if i < modulus then
        (if modulus * i < negativeNumber then Some i
         else negativeModulo_loop (i - 1) negativeNumber modulus)
      else Some i)"

declare negativeModulo_loop.simps [code]

definition negativeModulo :: "int \<Rightarrow> int \<Rightarrow> int option" where
  "negativeModulo negativeNumber modulus =
     (case negativeModulo_loop (- 1) negativeNumber modulus of
        None \<Rightarrow> None
      | Some i \<Rightarrow> Some (- 1 * (modulus * i) + negativeNumber))"

subsection \<open>inverseModulo\<close>

function inverseModulo_loop :: "int \<Rightarrow> int \<Rightarrow> int \<Rightarrow> int" where
  "inverseModulo_loop i a modulus =
     (if i < modulus then
        (if js_rem (a * i) modulus = 1 then i
         else inverseModulo_loop (i + 1) a modulus)
      else 1)"
  by pat_completeness auto
termination
  by (relation "measure (\<lambda>(i, a, modulus). nat (modulus - i))") auto

declare inverseModulo_loop.simps [simp del]

definition inverseModulo :: "int \<Rightarrow> int \<Rightarrow> int" where
  "inverseModulo a modulus = (let a' = js_rem a modulus in inverseModulo_loop 0 a' modulus)"

subsection \<open>gcd\<close>

text \<open>
  The subtraction loop of \<open>gcd\<close> (named \<open>gcd_js\<close> here, \<open>gcd\<close> being the
  library's). It has no bound on its iterations: \<open>None\<close> stands for a call that does
  not return.
\<close>

partial_function (option) gcd_js :: "int \<Rightarrow> int \<Rightarrow> int option" where
  "gcd_js number1 number2 =
     (if number1 \<noteq> number2 then
        (if number1 > number2 then gcd_js (number1 - number2) number2
         else gcd_js number1 (number2 - number1))
      else Some number1)"

declare gcd_js.simps [code]

subsection \<open>calculateK\<close>

text \<open>
  The candidate loop \<open>for (let i = 1; i <= c; i++)\<close> of the branch \<open>c !== 1\<close>: \<open>k\<close>
  is assigned before the test, and \<open>break\<close> leaves with the candidate just assigned.
\<close>

function calculateK_loop ::
  "int \<Rightarrow> int \<Rightarrow> int \<Rightarrow> int \<Rightarrow> int \<Rightarrow> int \<Rightarrow> int \<Rightarrow> int \<Rightarrow> int" where
  "calculateK_loop i c kt modulo2 alpha modulus signature1 k =
     (if i \<le> c then
        (let k' = kt + (i * modulo2) in
         if fastModularExponentiation alpha k' modulus = signature1 then k'
         else calculateK_loop (i + 1) c kt modulo2 alpha modulus signature1 k')
      else k)"
  by pat_completeness auto
termination
  by (relation "measure (\<lambda>(i, c, kt, modulo2, alpha, modulus, signature1, k). nat (c + 1 - i))") auto

declare calculateK_loop.simps [simp del]

text \<open>
  \<open>aux\<close> is computed first, then \<open>c\<close>; a call of \<open>negativeModulo\<close> or \<open>gcd\<close> that
  does not return keeps \<open>calculateK\<close> from returning. The parameter \<open>beta\<close> is unused
  in the source as well. The three quotients \<open>Math.floor(_ / c)\<close> are \<open>div\<close>; \<open>c\<close> is
  \<open>0\<close> only for \<open>signature2 = modulo - 1 = 0\<close>, where JavaScript divides by zero.
\<close>

definition calculateK :: "int \<Rightarrow> int \<Rightarrow> int \<Rightarrow> int \<Rightarrow> int \<Rightarrow> int \<Rightarrow> int \<Rightarrow> int option" where
  "calculateK alpha beta modulus m signature1 signature2 secretKey =
     (let k = 0 in
      case (if m - secretKey * signature1 < 0
            then negativeModulo (m - secretKey * signature1) (modulus - 1)
            else Some (fastModularExponentiation (m - secretKey * signature1) 1 (modulus - 1))) of
        None \<Rightarrow> None
      | Some aux \<Rightarrow>
          (case gcd_js signature2 (modulus - 1) of
             None \<Rightarrow> None
           | Some c \<Rightarrow>
               if c = 1 then
                 (let res = inverseModulo signature2 (modulus - 1) * (m - (secretKey * signature1))
                  in Some (fastModularExponentiation res 1 (modulus - 1)))
               else
                 (let modulo2 = (modulus - 1) div c;
                      signature2Inverse = inverseModulo (signature2 div c) modulo2;
                      kt = fastModularExponentiation ((aux div c) * signature2Inverse) 1 modulo2
                  in Some (calculateK_loop 1 c kt modulo2 alpha modulus signature1 k))))"

subsection \<open>Primality\<close>


section \<open>Properties of the arithmetic\<close>

lemma js_rem_nonneg: "0 \<le> a \<Longrightarrow> 0 < b \<Longrightarrow> js_rem a b = a mod b"
  by (simp add: js_rem_def sgn_if)

lemma fme_loop_stop: "\<not> 0 < e \<Longrightarrow> fme_loop r x e m = r"
  by (simp add: fme_loop.simps)

lemma fme_loop_step:
  "0 < e \<Longrightarrow> fme_loop r x e m =
     fme_loop (if js_rem e 2 = 1 then js_rem (r * x) m else r) (js_rem (x * x) m) (e div 2) m"
  by (subst fme_loop.simps) (simp add: Let_def)

lemma nat_double: "0 \<le> (k::int) \<Longrightarrow> nat (2 * k) = 2 * nat k"
  by (simp add: nat_mult_distrib)

lemma nat_double_Suc: "0 \<le> (k::int) \<Longrightarrow> nat (2 * k + 1) = Suc (2 * nat k)"
  by (simp add: nat_add_distrib nat_mult_distrib)

text \<open>
  The loop invariant of square-and-multiply. With a positive exponent the last
  iteration sees the top bit and reduces \<open>result\<close>, so \<open>result\<close> need not be reduced
  at entry.
\<close>

lemma fme_loop_correct:
  "0 < e \<Longrightarrow> 1 \<le> m \<Longrightarrow> 0 \<le> x \<Longrightarrow> 0 \<le> r \<Longrightarrow>
     fme_loop r x e m = (r * x ^ nat e) mod m"
proof (induction r x e m rule: fme_loop.induct)
  case (1 result x exponent modulus)
  let ?e' = "exponent div 2"
  let ?x' = "js_rem (x * x) modulus"
  let ?r' = "if js_rem exponent 2 = 1 then js_rem (result * x) modulus else result"
  have pos: "0 < exponent" by fact
  have x': "?x' = (x * x) mod modulus" using 1 by (simp add: js_rem_nonneg)
  have lsb: "js_rem exponent 2 = exponent mod 2" using pos by (simp add: js_rem_nonneg)
  have r': "0 \<le> ?r'" using 1 by (auto simp: js_rem_nonneg)
  have e': "0 \<le> ?e'" using pos by simp
  have step: "fme_loop result x exponent modulus = fme_loop ?r' ?x' ?e' modulus"
    using pos by (rule fme_loop_step)
  have pw: "?x' ^ nat ?e' mod modulus = (x * x) ^ nat ?e' mod modulus"
    by (simp add: x' power_mod)
  have sq: "(x * x) ^ nat ?e' = x ^ (2 * nat ?e')"
    by (simp add: power_mult power2_eq_square)
  have rest: "fme_loop ?r' ?x' ?e' modulus = (?r' * ?x' ^ nat ?e') mod modulus"
  proof (cases "0 < ?e'")
    case True
    have "0 \<le> ?x'" using 1 by (simp add: x')
    with 1(1) [OF pos refl refl refl refl True] 1(3) r' show ?thesis by simp
  next
    case False
    then have one: "exponent = 1" using pos by presburger
    then have "js_rem exponent 2 = 1" by (simp add: js_rem_def)
    then have "?r' = (result * x) mod modulus" using 1 by (simp add: js_rem_nonneg)
    then show ?thesis using False one by (simp add: fme_loop_stop)
  qed
  show ?case
  proof (cases "exponent mod 2 = 1")
    case True
    have "exponent = 2 * ?e' + 1" using True by presburger
    then have "nat exponent = nat (2 * ?e' + 1)" by simp
    then have e: "nat exponent = Suc (2 * nat ?e')" using e' by (simp only: nat_double_Suc)
    have "(?r' * ?x' ^ nat ?e') mod modulus =
            ((result * x) mod modulus * (?x' ^ nat ?e' mod modulus)) mod modulus"
      using True lsb 1 by (simp add: js_rem_nonneg mod_mult_right_eq)
    also have "\<dots> = ((result * x) * (x * x) ^ nat ?e') mod modulus"
      by (simp add: pw mod_mult_eq)
    also have "\<dots> = (result * x ^ nat exponent) mod modulus"
      by (simp add: sq e mult.assoc)
    finally show ?thesis using step rest by simp
  next
    case False
    have "exponent = 2 * ?e'" using False by presburger
    then have "nat exponent = nat (2 * ?e')" by simp
    then have e: "nat exponent = 2 * nat ?e'" using e' by (simp only: nat_double)
    have "(?r' * ?x' ^ nat ?e') mod modulus =
            (result * (?x' ^ nat ?e' mod modulus)) mod modulus"
      using False lsb by (simp add: mod_mult_right_eq)
    also have "\<dots> = (result * (x * x) ^ nat ?e') mod modulus"
      by (simp add: pw mod_mult_right_eq)
    also have "\<dots> = (result * x ^ nat exponent) mod modulus"
      by (simp add: sq e)
    finally show ?thesis using step rest by simp
  qed
qed

lemma fme_zero_exponent: "\<not> 0 < e \<Longrightarrow> fastModularExponentiation base e m = 1"
  by (simp add: fastModularExponentiation_def fme_loop_stop)

lemma fme_correct:
  assumes "0 \<le> base" and "0 \<le> e" and "1 \<le> m" and "0 < e \<or> 2 \<le> m"
  shows "fastModularExponentiation base e m = base ^ nat e mod m"
proof (cases "0 < e")
  case True
  have "fastModularExponentiation base e m = fme_loop 1 (base mod m) e m"
    using assms by (simp add: fastModularExponentiation_def js_rem_nonneg)
  also have "\<dots> = (1 * (base mod m) ^ nat e) mod m"
    using True assms by (intro fme_loop_correct) simp_all
  also have "\<dots> = base ^ nat e mod m"
    by (simp add: power_mod)
  finally show ?thesis .
next
  case False
  with assms have "e = 0" "2 \<le> m" by auto
  then show ?thesis by (simp add: fme_zero_exponent)
qed

lemma fme_range:
  assumes "0 \<le> base" and "0 \<le> e" and "2 \<le> m"
  shows "0 \<le> fastModularExponentiation base e m \<and> fastModularExponentiation base e m < m"
  using assms by (simp add: fme_correct)

subsection \<open>negativeModulo\<close>

lemma le_div_int_iff:
  assumes "1 \<le> (m::int)" shows "i * m \<le> w \<longleftrightarrow> i \<le> w div m"
proof
  assume "i * m \<le> w"
  then have "(i * m) div m \<le> w div m" using assms by (intro zdiv_mono1) auto
  then show "i \<le> w div m" using assms by simp
next
  assume "i \<le> w div m"
  then have "i * m \<le> (w div m) * m" using assms by (intro mult_right_mono) auto
  also have "\<dots> = w - w mod m" by (simp add: minus_mod_eq_div_mult)
  also have "\<dots> \<le> w" using assms by simp
  finally show "i * m \<le> w" .
qed

text \<open>
  The scan stops at the first \<open>i\<close>, counting down from \<open>-1\<close>, with
  \<open>modulo * i < value\<close>, that is at \<open>(value - 1) div modulo\<close> or at once.
\<close>

lemma negativeModulo_loop_value:
  "1 \<le> m \<Longrightarrow> i \<le> - 1 \<Longrightarrow> negativeModulo_loop i v m = Some (min i ((v - 1) div m))"
proof (induction "nat (i - (v - 1) div m)" arbitrary: i rule: less_induct)
  case less
  have im: "i < m" using less.prems by linarith
  have iff: "m * i < v \<longleftrightarrow> i \<le> (v - 1) div m"
  proof -
    have "m * i < v \<longleftrightarrow> i * m \<le> v - 1" by (simp add: mult.commute)
    also have "\<dots> \<longleftrightarrow> i \<le> (v - 1) div m"
      using less.prems(1) by (rule le_div_int_iff)
    finally show ?thesis .
  qed
  show ?case
  proof (cases "m * i < v")
    case True
    then show ?thesis using im iff by (subst negativeModulo_loop.simps) (simp add: min_def)
  next
    case False
    then have gt: "(v - 1) div m < i" using iff by simp
    have "negativeModulo_loop (i - 1) v m = Some (min (i - 1) ((v - 1) div m))"
      using less.prems gt by (intro less.hyps) auto
    then show ?thesis using False im gt
      by (subst negativeModulo_loop.simps) (simp add: min_def)
  qed
qed

lemma negativeModulo_value:
  assumes "1 \<le> m" and "v < 0"
  shows "negativeModulo v m = Some ((v - 1) mod m + 1)"
proof -
  have "(v - 1) div m < 0" using assms by (simp add: div_neg_pos_less0)
  then have "min (- 1) ((v - 1) div m) = (v - 1) div m" by simp
  then have "negativeModulo v m = Some (- 1 * (m * ((v - 1) div m)) + v)"
    using assms by (simp add: negativeModulo_def negativeModulo_loop_value)
  moreover have "- 1 * (m * ((v - 1) div m)) + v = (v - 1) mod m + 1"
    by (simp add: minus_mult_div_eq_mod [symmetric] algebra_simps)
  ultimately show ?thesis by simp
qed

subsection \<open>gcd\<close>

text \<open>A call of the subtraction loop returns only from equal or from positive arguments.\<close>

lemma gcd_js_Some_cases:
  assumes "gcd_js a b = Some y" shows "a = b \<or> (0 < a \<and> 0 < b)"
proof (rule gcd_js.raw_induct [where P = "\<lambda>a b y. a = b \<or> (0 < a \<and> 0 < b)", OF _ assms])
  fix g :: "int \<Rightarrow> int \<Rightarrow> int option" and a b y :: int
  assume IH: "\<And>a b y. g a b = Some y \<Longrightarrow> a = b \<or> 0 < a \<and> 0 < b"
    and body: "(if a \<noteq> b then if b < a then g (a - b) b else g a (b - a) else Some a) = Some y"
  show "a = b \<or> 0 < a \<and> 0 < b"
  proof (cases "a = b")
    case True then show ?thesis by simp
  next
    case False
    show ?thesis
    proof (cases "b < a")
      case True
      with False body have "g (a - b) b = Some y" by simp
      from IH [OF this] True show ?thesis by auto
    next
      case F: False
      with False body have "g a (b - a) = Some y" by simp
      from IH [OF this] F False show ?thesis by auto
    qed
  qed
qed

lemma gcd_js_correct:
  "0 < a \<Longrightarrow> 0 < b \<Longrightarrow> gcd_js a b = Some (gcd a b)"
proof (induction "nat (a + b)" arbitrary: a b rule: less_induct)
  case less
  show ?case
  proof (cases "a = b")
    case True
    then show ?thesis using less.prems by (subst gcd_js.simps) simp
  next
    case False
    show ?thesis
    proof (cases "a > b")
      case True
      have "gcd_js (a - b) b = Some (gcd (a - b) b)"
        using less.prems True by (intro less.hyps) auto
      moreover have "gcd (a - b) b = gcd a b"
        by (metis gcd_diff1)
      ultimately show ?thesis using True False by (subst gcd_js.simps) simp
    next
      case F: False
      have "gcd_js a (b - a) = Some (gcd a (b - a))"
        using less.prems F False by (intro less.hyps) auto
      moreover have "gcd a (b - a) = gcd a b"
        by (metis gcd_diff1 gcd.commute)
      ultimately show ?thesis using F False by (subst gcd_js.simps) simp
    qed
  qed
qed

subsection \<open>inverseModulo\<close>





subsection \<open>calculateK\<close>

lemma fme_exponent_one:
  "0 \<le> b \<Longrightarrow> 1 \<le> m \<Longrightarrow> fastModularExponentiation b 1 m = b mod m"
  using fme_correct [of b 1 m] by simp

lemma inverseModulo_loop_nonneg: "0 \<le> i \<Longrightarrow> 0 \<le> inverseModulo_loop i a m"
proof (induction i a m rule: inverseModulo_loop.induct)
  case (1 i a modulus)
  then show ?case by (subst inverseModulo_loop.simps) simp
qed

lemma inverseModulo_nonneg: "0 \<le> inverseModulo a m"
  by (simp add: inverseModulo_def inverseModulo_loop_nonneg)


lemma calculateK_aux:
  assumes "2 \<le> p"
  shows "(if d < 0 then negativeModulo d (p - 1)
          else Some (fastModularExponentiation d 1 (p - 1))) =
         Some (if d < 0 then (d - 1) mod (p - 1) + 1 else d mod (p - 1))"
  using assms by (simp add: negativeModulo_value fme_exponent_one)

lemma js_rem_idem: "js_rem (js_rem b m) m = js_rem b m"
proof (cases "b = 0")
  case True
  then show ?thesis by (simp add: js_rem_def)
next
  case False
  define r where "r = \<bar>b\<bar> mod \<bar>m\<bar>"
  have r0: "0 \<le> r" unfolding r_def by (cases "m = 0") simp_all
  have "\<bar>sgn b * r\<bar> = r" using False r0 by (simp add: abs_mult abs_sgn_eq)
  moreover have "r mod \<bar>m\<bar> = r" by (simp add: r_def)
  moreover have "sgn (sgn b * r) * r = sgn b * r"
    using r0 by (simp add: sgn_mult sgn_if)
  ultimately have "sgn (sgn b * r) * (\<bar>sgn b * r\<bar> mod \<bar>m\<bar>) = sgn b * r" by simp
  then show ?thesis by (simp add: js_rem_def r_def)
qed

lemma fme_exponent_one_rem: "fastModularExponentiation b 1 m = js_rem b m"
proof -
  have "fme_loop 1 (js_rem b m) 1 m = js_rem (js_rem b m) m"
    by (subst fme_loop.simps, subst fme_loop.simps) (simp add: js_rem_def Let_def)
  then show ?thesis by (simp add: fastModularExponentiation_def js_rem_idem)
qed

lemma calculateK_coprime:
  assumes "3 \<le> p" and "0 < s2" and "gcd s2 (p - 1) = 1"
  shows "calculateK alpha beta p m s1 s2 x =
           Some (js_rem (inverseModulo s2 (p - 1) * (m - x * s1)) (p - 1))"
proof -
  have g: "gcd_js s2 (p - 1) = Some 1"
    using assms by (simp add: gcd_js_correct)
  have "2 \<le> p" using assms(1) by simp
  from calculateK_aux [OF this, of "m - x * s1"] show ?thesis
    unfolding calculateK_def Let_def g by (simp add: fme_exponent_one_rem)
qed

lemma calculateK_coprime_nonneg:
  assumes "3 \<le> p" and "0 < s2" and "gcd s2 (p - 1) = 1" and "0 \<le> m - x * s1"
  shows "calculateK alpha beta p m s1 s2 x =
           Some ((inverseModulo s2 (p - 1) * ((m - x * s1) mod (p - 1))) mod (p - 1))"
proof -
  have "0 \<le> inverseModulo s2 (p - 1) * (m - x * s1)"
    using assms(4) by (simp add: inverseModulo_nonneg)
  then have "js_rem (inverseModulo s2 (p - 1) * (m - x * s1)) (p - 1) =
               (inverseModulo s2 (p - 1) * (m - x * s1)) mod (p - 1)"
    using assms(1) by (simp add: js_rem_nonneg)
  then show ?thesis
    using calculateK_coprime [OF assms(1-3)] by (simp add: mod_mult_right_eq)
qed

subsection \<open>Searching a range\<close>

lemma find_append_case:
  "find P (xs @ ys) = (case find P xs of None \<Rightarrow> find P ys | Some x \<Rightarrow> Some x)"
  by (induction xs) auto

lemma find_upto_None: "find P [i..j] = None \<longleftrightarrow> (\<forall>l. i \<le> l \<and> l \<le> j \<longrightarrow> \<not> P l)"
  by (auto simp: find_None_iff)

lemma find_upto_Some:
  "find P [i..j] = Some k \<longleftrightarrow> i \<le> k \<and> k \<le> j \<and> P k \<and> (\<forall>l. i \<le> l \<and> l < k \<longrightarrow> \<not> P l)"
proof (induction i j rule: upto.induct)
  case (1 i j)
  show ?case
  proof (cases "i \<le> j")
    case False
    then show ?thesis by auto
  next
    case True
    then have up: "[i..j] = i # [i + 1..j]" by (simp add: upto_rec1)
    show ?thesis
    proof (cases "P i")
      case hit: True
      have "k = i" if "i \<le> k" "\<forall>l. i \<le> l \<and> l < k \<longrightarrow> \<not> P l"
        using that hit by (metis order_le_less)
      then show ?thesis using True hit by (auto simp: up)
    next
      case miss: False
      have "(\<forall>l. i \<le> l \<and> l < k \<longrightarrow> \<not> P l) \<longleftrightarrow> (\<forall>l. i + 1 \<le> l \<and> l < k \<longrightarrow> \<not> P l)"
        using miss by (metis add1_zle_eq order_le_less)
      moreover have "i \<le> k \<and> P k \<longleftrightarrow> i + 1 \<le> k \<and> P k"
        using miss by (metis add1_zle_eq order_le_less)
      ultimately show ?thesis using 1 [OF True] miss by (auto simp: up)
    qed
  qed
qed

subsection \<open>discreteLogarithm: the square root and the two loops\<close>

lemma sqrt_loop_spec:
  "k * k \<le> m \<Longrightarrow>
     k \<le> sqrt_loop k m \<and> sqrt_loop k m * sqrt_loop k m \<le> m \<and>
     m < (sqrt_loop k m + 1) * (sqrt_loop k m + 1)"
proof (induction k m rule: sqrt_loop.induct)
  case (1 k m)
  show ?case
  proof (cases "(k + 1) * (k + 1) \<le> m")
    case True
    from 1(1) [OF True True] have "k + 1 \<le> sqrt_loop (k + 1) m \<and>
      sqrt_loop (k + 1) m * sqrt_loop (k + 1) m \<le> m \<and>
      m < (sqrt_loop (k + 1) m + 1) * (sqrt_loop (k + 1) m + 1)" .
    moreover have "sqrt_loop k m = sqrt_loop (k + 1) m"
      using True by (subst sqrt_loop.simps) simp
    ultimately show ?thesis by simp
  next
    case False
    then have "sqrt_loop k m = k" by (subst sqrt_loop.simps) simp
    with False 1(2) show ?thesis by auto
  qed
qed

lemma floor_sqrt_spec:
  assumes "0 \<le> m"
  shows "0 \<le> floor_sqrt m" and "floor_sqrt m * floor_sqrt m \<le> m"
    and "m < (floor_sqrt m + 1) * (floor_sqrt m + 1)"
  using sqrt_loop_spec [of 0 m] assms by (simp_all add: floor_sqrt_def)

lemma floor_sqrt_real:
  assumes "0 \<le> m"
  shows "floor_sqrt m + 1 = \<lfloor>sqrt (real_of_int m) + 1\<rfloor>"
proof -
  let ?r = "floor_sqrt m"
  have "(real_of_int ?r)\<^sup>2 \<le> real_of_int m"
    using floor_sqrt_spec(2) [OF assms] by (metis of_int_le_iff of_int_mult power2_eq_square)
  then have lo: "real_of_int ?r \<le> sqrt (real_of_int m)" by (rule real_le_rsqrt)
  have "real_of_int m < (real_of_int (?r + 1))\<^sup>2"
    using floor_sqrt_spec(3) [OF assms] by (metis of_int_less_iff of_int_mult power2_eq_square)
  moreover have "0 \<le> real_of_int (?r + 1)" using floor_sqrt_spec(1) [OF assms] by simp
  ultimately have hi: "sqrt (real_of_int m) < real_of_int (?r + 1)" by (intro real_less_lsqrt)
  have "\<lfloor>sqrt (real_of_int m)\<rfloor> = ?r" using lo hi by (simp add: floor_eq_iff)
  then show ?thesis by simp
qed

lemma giant_loop_lookup:
  "giant_loop i n alpha p table k =
     (case find (\<lambda>j. fastModularExponentiation alpha (j * n) p = k) [1..i] of
        Some j \<Rightarrow> Some j
      | None \<Rightarrow> table k)"
proof (induction i n alpha p table rule: giant_loop.induct)
  case (1 i n alpha modulus table)
  show ?case
  proof (cases "i \<ge> 1")
    case False
    then show ?thesis by (subst giant_loop.simps) simp
  next
    case True
    have up: "[1..i] = [1..i - 1] @ [i]" using True by (rule upto_rec2)
    have "giant_loop i n alpha modulus table k =
            giant_loop (i - 1) n alpha modulus
              (table(fastModularExponentiation alpha (i * n) modulus \<mapsto> i)) k"
      using True by (subst giant_loop.simps) simp
    also note 1 [OF True]
    finally show ?thesis
      by (simp add: up find_append_case split: option.splits)
  qed
qed


lemma giant_table_find:
  "giant_loop n n alpha p Map.empty k =
     find (\<lambda>j. fastModularExponentiation alpha (j * n) p = k) [1..n]"
  by (simp add: giant_loop_lookup split: option.split)


lemma giant_table_least:
  assumes "1 \<le> i" and "i \<le> n"
  shows "\<exists>v. giant_loop n n alpha p Map.empty (fastModularExponentiation alpha (i * n) p) = Some v \<and>
             1 \<le> v \<and> v \<le> i \<and>
             fastModularExponentiation alpha (v * n) p = fastModularExponentiation alpha (i * n) p \<and>
             (\<forall>l. 1 \<le> l \<and> l < v \<longrightarrow>
                fastModularExponentiation alpha (l * n) p \<noteq> fastModularExponentiation alpha (i * n) p)"
proof -
  let ?k = "fastModularExponentiation alpha (i * n) p"
  let ?P = "\<lambda>j. fastModularExponentiation alpha (j * n) p = ?k"
  have "find ?P [1..n] \<noteq> None"
    using assms by (auto simp: find_upto_None)
  then obtain v where v: "find ?P [1..n] = Some v" by auto
  then have tab: "giant_loop n n alpha p Map.empty ?k = Some v"
    by (simp only: giant_table_find)
  from v have props: "1 \<le> v" "v \<le> n" "?P v" "\<forall>l. 1 \<le> l \<and> l < v \<longrightarrow> \<not> ?P l"
    by (simp_all add: find_upto_Some)
  have "v \<le> i"
  proof (rule ccontr)
    assume "\<not> v \<le> i"
    then have "i < v" by simp
    with props(4) assms(1) show False by auto
  qed
  with tab props show ?thesis by blast
qed



subsection \<open>discreteLogarithm: the arithmetic of a meeting point\<close>







section \<open>Claims\<close>

subsection \<open>C1: verify\<close>




subsection \<open>C2: the round trip through discreteLogarithm\<close>




subsection \<open>C3: calculateK in the coprime branch\<close>

text \<open>
  C3. With \<open>p \<ge> 3\<close> and \<open>gcd(s2, p - 1) = 1\<close> the result is claimed to be
  \<open>(modInverse(s2, p - 1) * aux) mod (p - 1)\<close> with \<open>aux\<close> the residue of \<open>m - x * s1\<close>
  in \<open>[0, p - 2]\<close>, hence in \<open>[0, p - 2]\<close> also for a negative \<open>m - x * s1\<close>. The
  branch \<open>c === 1\<close> does not use \<open>aux\<close>: it multiplies the inverse by the unreduced
  \<open>m - x * s1\<close> and takes the remainder of the source, whose sign is the dividend's
  (\<open>calculateK_coprime\<close>). For \<open>m - x * s1 \<ge> 0\<close> that is the claimed value
  (\<open>calculateK_coprime_nonneg\<close>); for the signature \<open>(7, 10, 19)\<close> under \<open>p = 23\<close>,
  \<open>alpha = 5\<close>, \<open>x = 6\<close> (nonce \<open>3\<close>) the call returns \<open>-19\<close>, where the claimed
  value is \<open>3\<close>.
\<close>

theorem calculateK_negative_difference:
  "calculateK 5 8 23 7 10 19 6 = Some (- 19) \<and>
   gcd (19::int) (23 - 1) = 1 \<and>
   (inverseModulo 19 (23 - 1) * ((7 - 6 * 10) mod (23 - 1))) mod (23 - 1) = (3::int)"
  by code_simp

subsection \<open>C4: calculateK in the non-coprime branch\<close>




subsection \<open>C5: inverseModulo\<close>




subsection \<open>C6: fastModularExponentiation at exponent 0 and modulus 1\<close>

text \<open>
  C6. For \<open>base \<ge> 0\<close>, \<open>exponent \<ge> 0\<close> and \<open>modulo \<ge> 1\<close> the function is claimed to
  return \<open>base ^ exponent mod modulo\<close>, in particular \<open>0\<close> for exponent \<open>0\<close> and
  modulus \<open>1\<close>. The loop body is the only place where \<open>result\<close> is reduced, and with
  exponent \<open>0\<close> it never runs: \<open>fastModularExponentiation(5, 0, 1)\<close> returns the
  initial \<open>1\<close>, which is not in \<open>[0, 1)\<close> and is not \<open>5 ^ 0 mod 1 = 0\<close>. Everywhere
  else in the claimed domain the result is the claimed one (\<open>fme_correct\<close>).
\<close>

theorem fme_exponent_zero_modulus_one:
  "fastModularExponentiation 5 0 1 = 1 \<and> (5::int) ^ nat 0 mod 1 = 0"
  by (simp add: fme_zero_exponent)

subsection \<open>C7: negativeModulo at exact multiples\<close>

text \<open>
  C7. For a negative \<open>value\<close> and \<open>modulo \<ge> 1\<close> the function is claimed to return the
  representative of \<open>value\<close> in \<open>[0, modulo)\<close>, also when \<open>value\<close> is an exact negative
  multiple of \<open>modulo\<close>. The scan stops at the first multiple strictly below \<open>value\<close>,
  so the result lies in \<open>(0, modulo]\<close> (\<open>negativeModulo_value\<close>): it is the claimed
  residue unless \<open>value\<close> is a multiple, and then it is \<open>modulo\<close> instead of \<open>0\<close>.
  \<open>negativeModulo(-3, 3)\<close> returns \<open>3\<close>, where \<open>-3 mod 3 = 0\<close>.
\<close>

theorem negativeModulo_exact_multiple:
  "negativeModulo (- 3) 3 = Some 3 \<and> (- 3 :: int) mod 3 = 0"
  by (simp add: negativeModulo_value)

subsection \<open>C8: collisions in the giant-step table\<close>

text \<open>
  C8 as stated has the higher index win when two giant steps have the same key. The
  first loop runs from \<open>n\<close> down to \<open>1\<close>, so the lower index is written last. For
  \<open>alpha = 2\<close>, \<open>p = 3\<close> (\<open>n = 2\<close>) the indices \<open>1\<close> and \<open>2\<close> both have key \<open>1\<close>, and
  the table holds \<open>1\<close> there; \<open>discreteLogarithm(2, 1, 3)\<close> accordingly returns
  \<open>1 * 2 - 0 = 2\<close>.
\<close>

theorem giant_step_collision_counterexample:
  "floor_sqrt 3 + 1 = 2 \<and>
   fastModularExponentiation 2 (1 * 2) 3 = fastModularExponentiation 2 (2 * 2) 3 \<and>
   giant_loop 2 2 2 3 Map.empty (fastModularExponentiation 2 (2 * 2) 3) = Some 1 \<and>
   discreteLogarithm 2 1 3 = 2"
  by code_simp

text \<open>
  C8, amended: whenever two indices \<open>i1 < i2\<close> in \<open>[1, n]\<close> produce the same key, the
  table entry consulted by the baby-step scan stores the lowest index that produces
  that key: an index \<open>i \<le> i1\<close>, never \<open>i2\<close> (lower indices are inserted later and
  win). Stated for the table the first loop builds from any \<open>n\<close>; \<open>discreteLogarithm\<close>
  uses \<open>n = floor_sqrt p + 1\<close>.
\<close>

theorem giant_step_collision:
  assumes "1 \<le> i1" and "i1 < i2" and "i2 \<le> n"
    and "fastModularExponentiation alpha (i1 * n) p = fastModularExponentiation alpha (i2 * n) p"
  shows "\<exists>i. giant_loop n n alpha p Map.empty (fastModularExponentiation alpha (i2 * n) p) = Some i \<and>
             1 \<le> i \<and> i \<le> i1 \<and> i \<noteq> i2 \<and>
             fastModularExponentiation alpha (i * n) p = fastModularExponentiation alpha (i2 * n) p \<and>
             (\<forall>l. 1 \<le> l \<and> l < i \<longrightarrow>
                fastModularExponentiation alpha (l * n) p \<noteq> fastModularExponentiation alpha (i2 * n) p)"
proof -
  have "i1 \<le> n" using assms(2,3) by simp
  from giant_table_least [OF assms(1) this, of alpha p] obtain v where
    v: "giant_loop n n alpha p Map.empty (fastModularExponentiation alpha (i1 * n) p) = Some v"
       "1 \<le> v" "v \<le> i1"
       "fastModularExponentiation alpha (v * n) p = fastModularExponentiation alpha (i1 * n) p"
       "\<forall>l. 1 \<le> l \<and> l < v \<longrightarrow>
          fastModularExponentiation alpha (l * n) p \<noteq> fastModularExponentiation alpha (i1 * n) p"
    by blast
  have "v \<noteq> i2" using v(3) assms(2) by simp
  with v show ?thesis unfolding assms(4) by blast
qed

theorem giant_step_collision_witness:
  "giant_loop 2 2 2 3 Map.empty (fastModularExponentiation 2 (2 * 2) 3) = Some 1"
proof -
  have "fastModularExponentiation 2 (1 * 2) 3 = fastModularExponentiation 2 (2 * 2) 3"
    by code_simp
  from giant_step_collision [of 1 2 2 2 3, OF _ _ _ this] show ?thesis by auto
qed

subsection \<open>C9: gcd with a zero operand\<close>

text \<open>
  C9. \<open>gcd(a, 0) = a\<close> and totality on the non-negative integers are claimed. With one
  operand \<open>0\<close> and the other positive the loop subtracts \<open>0\<close> for ever: \<open>gcd(5, 0)\<close>
  does not return. On positive operands the loop returns the greatest common divisor
  (\<open>gcd_js_correct\<close>), which is symmetric.
\<close>

theorem gcd_js_zero_operand_diverges:
  "gcd_js 5 0 = None \<and> gcd_js 0 5 = None"
proof -
  have "gcd_js a b \<noteq> Some y" if "a \<noteq> b" "\<not> (0 < a \<and> 0 < b)" for a b y
    using gcd_js_Some_cases [of a b y] that by blast
  then have "gcd_js 5 0 \<noteq> Some y" "gcd_js 0 5 \<noteq> Some y" for y
    by simp_all
  then show ?thesis by (metis not_Some_eq)
qed

subsection \<open>C10: what discreteLogarithm returns\<close>



end
